theory Spec2Isabelle
  imports Complex_Main "HOL-Library.Word" "HOL-Library.Signed_Division" "HOL-Library.AList"
begin

section \<open>Floating-point values\<close>

text \<open>
  The daemon computes with Go's \<open>float32\<close> and \<open>float64\<close>. A value is modelled by the
  rational it denotes, or by an infinity or a NaN; an operation computes the exact result and
  rounds it to the nearest value of the format, ties to even, as IEEE 754 prescribes. The two
  zeros are identified (\<open>Fin 0\<close> stands for \<open>+0\<close>): formatting apart, which is not
  modelled, the only operation of the program that tells them apart is a division by zero, and
  the divisors of the program (a sample rate, which the packet pattern captures without a
  sign, the flush interval and a number of observations) are never \<open>-0\<close>.
\<close>

datatype fp = Fin rat | PInf | NInf | NaN

definition pow2 :: "int \<Rightarrow> rat" where
  "pow2 e = (if 0 \<le> e then 2 ^ nat e else 1 / 2 ^ nat (- e))"

function bitlen :: "int \<Rightarrow> int" where
  \<comment> \<open>the number of binary digits of \<open>n\<close>\<close>
  "bitlen n = (if n \<le> 0 then 0 else 1 + bitlen (n div 2))"
  by pat_completeness auto
termination
  by (relation "measure nat") auto

declare bitlen.simps [simp del]

definition ilog2 :: "rat \<Rightarrow> int" where
  \<comment> \<open>the exponent \<open>e\<close> with \<open>2^e \<le> q < 2^(e+1)\<close>, for \<open>q > 0\<close>\<close>
  "ilog2 q =
     (let (n, d) = quotient_of q;
          c = bitlen n - bitlen d
      in if pow2 c \<le> q then c else c - 1)"

definition round_even :: "rat \<Rightarrow> int" where
  "round_even x =
     (let f = \<lfloor>x\<rfloor>; d = x - of_int f
      in if d < 1 / 2 then f
         else if 1 / 2 < d then f + 1
         else if even f then f else f + 1)"

definition inf_of :: "bool \<Rightarrow> fp" where
  "inf_of neg = (if neg then NInf else PInf)"

definition fl_round :: "nat \<Rightarrow> int \<Rightarrow> int \<Rightarrow> rat \<Rightarrow> fp" where
  \<comment> \<open>round \<open>q\<close> to the format with \<open>p\<close> significant bits and exponents \<open>emin..emax\<close>:
      \<open>m\<close> is the significand after rounding, in units of the last place; the result
      overflows when its exponent exceeds \<open>emax\<close>\<close>
  "fl_round p emin emax q =
     (if q = 0 then Fin 0
      else
        let a = \<bar>q\<bar>;
            e = max (ilog2 a) emin;
            ulp = pow2 (e - int p + 1);
            m = round_even (a / ulp)
        in if emax < e \<or> (e = emax \<and> 2 ^ p \<le> m) then inf_of (q < 0)
           else Fin (if q < 0 then - (of_int m * ulp) else of_int m * ulp))"

definition f32 :: "rat \<Rightarrow> fp" where
  "f32 = fl_round 24 (- 126) 127"

definition f64 :: "rat \<Rightarrow> fp" where
  "f64 = fl_round 53 (- 1022) 1023"

definition negative :: "fp \<Rightarrow> bool" where
  "negative x = (case x of Fin a \<Rightarrow> a < 0 | NInf \<Rightarrow> True | _ \<Rightarrow> False)"

definition fp_mul :: "(rat \<Rightarrow> fp) \<Rightarrow> fp \<Rightarrow> fp \<Rightarrow> fp" where
  "fp_mul rnd x y =
     (if x = NaN \<or> y = NaN then NaN
      else case (x, y) of
        (Fin a, Fin b) \<Rightarrow> rnd (a * b)
      | _ \<Rightarrow> if x = Fin 0 \<or> y = Fin 0 then NaN else inf_of (negative x \<noteq> negative y))"

definition fp_div :: "(rat \<Rightarrow> fp) \<Rightarrow> fp \<Rightarrow> fp \<Rightarrow> fp" where
  "fp_div rnd x y =
     (if x = NaN \<or> y = NaN then NaN
      else case (x, y) of
        (Fin a, Fin b) \<Rightarrow>
          (if b = 0 then (if a = 0 then NaN else inf_of (a < 0)) else rnd (a / b))
      | (Fin a, _) \<Rightarrow> Fin 0
      | (_, Fin b) \<Rightarrow> inf_of (negative x \<noteq> (b < 0))
      | _ \<Rightarrow> NaN)"

definition fp_add :: "(rat \<Rightarrow> fp) \<Rightarrow> fp \<Rightarrow> fp \<Rightarrow> fp" where
  "fp_add rnd x y =
     (if x = NaN \<or> y = NaN then NaN
      else case (x, y) of
        (Fin a, Fin b) \<Rightarrow> rnd (a + b)
      | (Fin a, _) \<Rightarrow> y
      | (_, Fin b) \<Rightarrow> x
      | _ \<Rightarrow> if x = y then x else NaN)"

fun fp_lt :: "fp \<Rightarrow> fp \<Rightarrow> bool" where
  "fp_lt NaN _ = False"
| "fp_lt _ NaN = False"
| "fp_lt (Fin a) (Fin b) = (a < b)"
| "fp_lt (Fin a) PInf = True"
| "fp_lt (Fin a) NInf = False"
| "fp_lt NInf NInf = False"
| "fp_lt NInf _ = True"
| "fp_lt PInf _ = False"

definition float32 :: "fp \<Rightarrow> fp" where
  \<comment> \<open>the conversion \<open>float32(x)\<close>\<close>
  "float32 x = (case x of Fin q \<Rightarrow> f32 q | _ \<Rightarrow> x)"

definition float64_of_int :: "int \<Rightarrow> fp" where
  \<comment> \<open>the conversion \<open>float64(n)\<close> of an integer\<close>
  "float64_of_int n = f64 (of_int n)"

definition rat_trunc :: "rat \<Rightarrow> int" where
  "rat_trunc q = (if 0 \<le> q then \<lfloor>q\<rfloor> else \<lceil>q\<rceil>)"

definition int_of_float :: "(fp \<Rightarrow> 64 word) \<Rightarrow> fp \<Rightarrow> 64 word" where
  \<comment> \<open>the conversion \<open>int(x)\<close> on a 64-bit platform: the fraction is discarded; where the
      result does not fit (also for an infinity or a NaN) the language leaves the value to the
      implementation, which \<open>conv\<close> stands for\<close>
  "int_of_float conv x =
     (case x of
        Fin q \<Rightarrow>
          (if - (2 ^ 63) \<le> rat_trunc q \<and> rat_trunc q < 2 ^ 63 then word_of_int (rat_trunc q)
           else conv x)
      | _ \<Rightarrow> conv x)"

definition conv_amd64 :: "fp \<Rightarrow> 64 word" where
  \<comment> \<open>what the amd64 conversion instruction returns where the result does not fit\<close>
  "conv_amd64 x = 0x8000000000000000"

section \<open>strconv\<close>

text \<open>
  The strings that the program hands to \<open>strconv\<close> are captured by the packet pattern, or
  are what is left of a captured value after its first character: they are made of digits,
  points and signs. On every string made of a leading sign, digits and points the functions
  below return what the library returns. The library also reads exponents, hexadecimal
  digits, underscores, infinities and NaNs; a string with any other character is a syntax
  error here.
\<close>

definition is_digit :: "char \<Rightarrow> bool" where
  "is_digit c = (c \<in> set ''0123456789'')"

definition digit_val :: "char \<Rightarrow> int" where
  "digit_val c = of_char c - 48"

definition digits_val :: "string \<Rightarrow> int" where
  "digits_val ds = foldl (\<lambda>n c. 10 * n + digit_val c) 0 ds"

definition split_sign :: "string \<Rightarrow> bool \<times> string" where
  \<comment> \<open>an optional leading \<open>+\<close> or \<open>-\<close>\<close>
  "split_sign s =
     (case s of
        [] \<Rightarrow> (False, s)
      | c # r \<Rightarrow> if c = CHR ''-'' then (True, r) else if c = CHR ''+'' then (False, r)
                else (False, s))"

definition parse_decimal :: "string \<Rightarrow> (bool \<times> rat) option" where
  \<comment> \<open>sign and magnitude of a decimal: digits with at most one point and at least one digit\<close>
  "parse_decimal s =
     (let (neg, body) = split_sign s;
          ip = takeWhile is_digit body;
          r1 = dropWhile is_digit body;
          (fr, r2) = (case r1 of
                        [] \<Rightarrow> ([], [])
                      | c # r \<Rightarrow> if c = CHR ''.'' then (takeWhile is_digit r, dropWhile is_digit r)
                                else ([], r1))
      in if r2 = [] \<and> ip @ fr \<noteq> []
         then Some (neg, of_int (digits_val (ip @ fr)) / 10 ^ length fr)
         else None)"

definition ParseFloat :: "(rat \<Rightarrow> fp) \<Rightarrow> string \<Rightarrow> fp \<times> bool" where
  \<comment> \<open>\<open>strconv.ParseFloat(s, bitSize)\<close>, \<open>rnd\<close> rounding to the format of \<open>bitSize\<close>; the
      second component tells whether an error is returned: a syntax error comes with the value
      0, a range error with an infinity\<close>
  "ParseFloat rnd s =
     (case parse_decimal s of
        None \<Rightarrow> (Fin 0, True)
      | Some (neg, m) \<Rightarrow>
          (let v = rnd (if neg then - m else m) in (v, v = PInf \<or> v = NInf)))"

definition Atoi :: "string \<Rightarrow> int \<times> bool" where
  \<comment> \<open>\<open>strconv.Atoi(s)\<close> with 64-bit \<open>int\<close>: a syntax error comes with the value 0, a range
      error with the nearest bound\<close>
  "Atoi s =
     (let (neg, body) = split_sign s
      in if body \<noteq> [] \<and> list_all is_digit body then
           let n = digits_val body
           in if neg then (if 2 ^ 63 < n then (- (2 ^ 63), True) else (- n, False))
              else (if 2 ^ 63 \<le> n then (2 ^ 63 - 1, True) else (n, False))
         else (0, True))"

section \<open>The sample decoder: \<open>handleMessage\<close>\<close>

record Packet =
  Bucket :: string
  Value :: string
  Modifier :: string
  Sampling :: fp

definition keep_char :: "char \<Rightarrow> bool" where
  \<comment> \<open>the characters that \<open>sanitizeRegexp\<close>, \<open>[^a-zA-Z0-9\-_\.:\|@]\<close>, does not match\<close>
  "keep_char c =
     (c \<in> set ''abcdefghijklmnopqrstuvwxyzABCDEFGHIJKLMNOPQRSTUVWXYZ0123456789-_.:|@'')"

definition sanitize :: "string \<Rightarrow> string" where
  \<comment> \<open>\<open>sanitizeRegexp.ReplaceAllString(buf.String(), "")\<close>\<close>
  "sanitize s = filter keep_char s"

definition name_char :: "char \<Rightarrow> bool" where
  \<comment> \<open>the class \<open>[a-zA-Z0-9_\.]\<close>\<close>
  "name_char c =
     (c \<in> set ''abcdefghijklmnopqrstuvwxyzABCDEFGHIJKLMNOPQRSTUVWXYZ0123456789_.'')"

definition value_char :: "char \<Rightarrow> bool" where
  \<comment> \<open>the class \<open>[0-9\.]\<close>\<close>
  "value_char c = (c \<in> set ''0123456789.'')"

text \<open>
  \<open>packetRegexp\<close> is
  \<open>([a-zA-Z0-9_\.]+):(\-?[0-9\.]+)\|(c|ms|g)(\|@([0-9\.]+))?\<close>.
  Go's matcher prefers, at a given start, what a backtracking matcher finds first. Here each
  greedy repetition is followed by a character outside its class, so giving a character back
  never helps and the preferred match takes every repetition as far as it goes; the three
  alternatives of the type differ in their first character. Each function below matches one
  piece at the head of the text and returns what it captured and the text left.
\<close>

definition match_name :: "string \<Rightarrow> (string \<times> string) option" where
  "match_name s =
     (if takeWhile name_char s = [] then None
      else Some (takeWhile name_char s, dropWhile name_char s))"

definition expect :: "char \<Rightarrow> string \<Rightarrow> string option" where
  "expect c s = (case s of [] \<Rightarrow> None | x # r \<Rightarrow> if x = c then Some r else None)"

definition match_value :: "string \<Rightarrow> (string \<times> string) option" where
  "match_value s =
     (let (sg, r) = (case expect CHR ''-'' s of Some r \<Rightarrow> (''-'', r) | None \<Rightarrow> ([], s))
      in if takeWhile value_char r = [] then None
         else Some (sg @ takeWhile value_char r, dropWhile value_char r))"

definition match_type :: "string \<Rightarrow> (string \<times> string) option" where
  "match_type s =
     (case s of
        [] \<Rightarrow> None
      | c # r \<Rightarrow>
          if c = CHR ''c'' then Some (''c'', r)
          else if c = CHR ''m'' then
            (case expect CHR ''s'' r of Some r' \<Rightarrow> Some (''ms'', r') | None \<Rightarrow> None)
          else if c = CHR ''g'' then Some (''g'', r)
          else None)"

definition match_rate :: "string \<Rightarrow> string \<times> string" where
  \<comment> \<open>the optional group \<open>(\|@([0-9\.]+))?\<close>: the rate captured (empty when the group does
      not take part in the match) and the text left\<close>
  "match_rate s =
     (case expect CHR ''|'' s of
        None \<Rightarrow> ([], s)
      | Some r \<Rightarrow>
          (case expect CHR ''@'' r of
             None \<Rightarrow> ([], s)
           | Some r' \<Rightarrow>
               if takeWhile value_char r' = [] then ([], s)
               else (takeWhile value_char r', dropWhile value_char r')))"

definition match_at :: "string \<Rightarrow> (string list \<times> string) option" where
  \<comment> \<open>a match of \<open>packetRegexp\<close> that starts at the head of \<open>s\<close>: the six submatches
      \<open>item[0..5]\<close> and the text after the match\<close>
  "match_at s =
     (case match_name s of
        None \<Rightarrow> None
      | Some (name, r1) \<Rightarrow>
     (case expect CHR '':'' r1 of
        None \<Rightarrow> None
      | Some r2 \<Rightarrow>
     (case match_value r2 of
        None \<Rightarrow> None
      | Some (v, r3) \<Rightarrow>
     (case expect CHR ''|'' r3 of
        None \<Rightarrow> None
      | Some r4 \<Rightarrow>
     (case match_type r4 of
        None \<Rightarrow> None
      | Some (ty, r5) \<Rightarrow>
          (let (rate, r6) = match_rate r5;
               g4 = (if rate = [] then [] else ''|@'' @ rate)
           in Some ([name @ '':'' @ v @ ''|'' @ ty @ g4, name, v, ty, g4, rate], r6)))))))"

function FindAll :: "string \<Rightarrow> string list list" where
  \<comment> \<open>\<open>packetRegexp.FindAllStringSubmatch(s, -1)\<close>: the leftmost match, then the matches of
      the text after it\<close>
  "FindAll s =
     (if s = [] then []
      else case match_at s of
             Some (item, rest) \<Rightarrow> item # FindAll rest
           | None \<Rightarrow> FindAll (tl s))"
  by pat_completeness auto
termination
proof (relation "measure length")
  show "wf (measure length)"
    by simp
next
  fix s :: string and x2 item rest
  assume "s \<noteq> []" and "match_at s = Some x2" and "(item, rest) = x2"
  then have m: "match_at s = Some (item, rest)"
    by simp
  have dw: "length (dropWhile P xs) \<le> length xs" for P and xs :: string
    by (rule length_dropWhile_le)
  have nm: "match_name s = Some (n, r1) \<Longrightarrow> length r1 \<le> length s" for n r1
    by (auto simp: match_name_def dw split: if_splits)
  have ex: "expect c x = Some y \<Longrightarrow> length y < length x" for c x y
    by (auto simp: expect_def split: list.splits if_splits)
  have mv: "match_value x = Some (v, y) \<Longrightarrow> length y \<le> length x" for x v y
    by (auto simp: match_value_def Let_def split: option.splits if_splits
        intro: order_trans [OF dw] dest!: ex)
  have mt: "match_type x = Some (t, y) \<Longrightarrow> length y < length x" for x t y
    by (auto simp: match_type_def split: list.splits if_splits option.splits dest!: ex)
  have mr: "match_rate x = (q, y) \<Longrightarrow> length y \<le> length x" for x q y
    by (auto simp: match_rate_def split: option.splits if_splits dest!: ex
        intro: order_trans [OF dw] less_imp_le)
  from m obtain n r1 r2 v r3 r4 ty r5 q where
    "match_name s = Some (n, r1)" "expect CHR '':'' r1 = Some r2"
    "match_value r2 = Some (v, r3)" "expect CHR ''|'' r3 = Some r4"
    "match_type r4 = Some (ty, r5)" "match_rate r5 = (q, rest)"
    by (auto simp: match_at_def Let_def split: option.splits prod.splits)
  then have "length rest < length s"
    using nm ex mv mt mr by (meson less_le_trans less_trans le_less_trans)
  then show "(rest, s) \<in> measure length"
    by simp
next
  fix s :: string
  assume "s \<noteq> []"
  then show "(tl s, s) \<in> measure length"
    by (cases s) simp_all
qed

declare FindAll.simps [simp del]

definition to_packet :: "string list \<Rightarrow> Packet" where
  \<comment> \<open>the body of the loop of \<open>handleMessage\<close>: the packet sent for one match\<close>
  "to_packet item =
     (let value = (if item ! 3 = ''ms'' \<and> snd (ParseFloat f32 (item ! 2)) then ''0''
                   else item ! 2);
          (r, err) = ParseFloat f32 (item ! 5);
          sampleRate = (if err then Fin 1 else r)
      in \<lparr>Bucket = item ! 1, Value = value, Modifier = item ! 3,
          Sampling = float32 sampleRate\<rparr>)"

definition handleMessage :: "string \<Rightarrow> Packet list" where
  \<comment> \<open>the packets that \<open>handleMessage\<close> sends on the channel \<open>In\<close> for one datagram, in
      the order sent\<close>
  "handleMessage buf = map to_packet (FindAll (sanitize buf))"

section \<open>The aggregate store and the consumer loop: \<open>monitor\<close>\<close>

text \<open>
  The three global maps. A Go map is modelled by an association list with distinct keys; the
  order of the list stands for the order in which \<open>range\<close> visits the map, which Go leaves open.
  The theorems below hold for every store, hence for every such order. Go's \<open>int\<close> is taken
  to be 64 bits wide.
\<close>

record store =
  counters :: "(string \<times> 64 word) list"
  timers :: "(string \<times> fp list) list"
  gauges :: "(string \<times> 64 word) list"

definition empty_store :: store where
  "empty_store = \<lparr>counters = [], timers = [], gauges = []\<rparr>"

definition wf_store :: "store \<Rightarrow> bool" where
  "wf_store st =
     (distinct (map fst (counters st)) \<and> distinct (map fst (timers st)) \<and>
      distinct (map fst (gauges st)))"

definition ensure :: "'k \<Rightarrow> 'v \<Rightarrow> ('k \<times> 'v) list \<Rightarrow> ('k \<times> 'v) list" where
  \<comment> \<open>\<open>_, ok := m[k]; if !ok { m[k] = d }\<close>\<close>
  "ensure k d m = (if map_of m k = None then m @ [(k, d)] else m)"

definition HasPrefix :: "string \<Rightarrow> string \<Rightarrow> bool" where
  "HasPrefix s p = (take (length p) s = p)"

definition counter_increment :: "(fp \<Rightarrow> 64 word) \<Rightarrow> Packet \<Rightarrow> 64 word" where
  \<comment> \<open>\<open>int(float32(floatValue) * (1 / s.Sampling))\<close>\<close>
  "counter_increment conv s =
     (let floatValue = fst (ParseFloat f32 (Value s))
      in int_of_float conv (fp_mul f32 (float32 floatValue) (fp_div f32 (Fin 1) (Sampling s))))"

definition monitor_sample :: "(fp \<Rightarrow> 64 word) \<Rightarrow> store \<Rightarrow> Packet \<Rightarrow> store" where
  \<comment> \<open>the case \<open>s := <-In\<close> of the loop of \<open>monitor\<close>\<close>
  "monitor_sample conv st s =
     (if Modifier s = ''ms'' then
        let floatValue = fst (ParseFloat f64 (Value s))
        in st\<lparr>timers :=
                AList.map_entry (Bucket s) (\<lambda>t. t @ [floatValue])
                  (ensure (Bucket s) [] (timers st))\<rparr>
      else if Modifier s = ''g'' then
        let gs = ensure (Bucket s) 0 (gauges st)
        in if HasPrefix (Value s) ''+'' then
             let intValue = fst (Atoi (drop 1 (Value s)))
             in st\<lparr>gauges := AList.map_entry (Bucket s) (\<lambda>g. g + word_of_int intValue) gs\<rparr>
           else if HasPrefix (Value s) ''-'' then
             let intValue = fst (Atoi (drop 1 (Value s)))
             in st\<lparr>gauges := AList.map_entry (Bucket s) (\<lambda>g. g - word_of_int intValue) gs\<rparr>
           else
             let intValue = fst (Atoi (Value s))
             in st\<lparr>gauges := AList.update (Bucket s) (word_of_int intValue) gs\<rparr>
      else
        st\<lparr>counters :=
             AList.map_entry (Bucket s) (\<lambda>c. c + counter_increment conv s)
               (ensure (Bucket s) 0 (counters st))\<rparr>)"

definition monitor_samples :: "(fp \<Rightarrow> 64 word) \<Rightarrow> store \<Rightarrow> Packet list \<Rightarrow> store" where
  \<comment> \<open>the loop receiving the packets \<open>ps\<close> in this order, with no tick in between\<close>
  "monitor_samples conv st ps = foldl (monitor_sample conv) st ps"

definition receive :: "(fp \<Rightarrow> 64 word) \<Rightarrow> store \<Rightarrow> string \<Rightarrow> store" where
  \<comment> \<open>one datagram, decoded by \<open>handleMessage\<close> and consumed by \<open>monitor\<close> before anything
      else arrives\<close>
  "receive conv st buf = monitor_samples conv st (handleMessage buf)"

section \<open>The flush: \<open>submit\<close>\<close>

record config =
  flushInterval :: int
  percentThreshold :: int
  statsPrefix :: string
  countersPrefix :: string
  gaugesPrefix :: string
  timersPrefix :: string

definition default_config :: config where
  \<comment> \<open>the defaults of the flags\<close>
  "default_config =
     \<lparr>flushInterval = 10, percentThreshold = 90, statsPrefix = ''stats.'',
      countersPrefix = ''stats.counters.'', gaugesPrefix = ''stats.gauges.'',
      timersPrefix = ''stats.timers.''\<rparr>"

text \<open>
  A data point is a line of the buffer sent to Graphite: its name, its value before formatting
  and the timestamp. The sends to Ganglia carry the same values under other names and are not
  modelled, nor is the connection. The two source files differ only there and in the verb
  that formats the rate of a counter.
\<close>

datatype datum = IntV int | FloatV fp

type_synonym point = "string \<times> datum \<times> 32 word"

datatype error = SliceBounds | SliceBeyondLength

definition int64 :: "int \<Rightarrow> int" where
  \<comment> \<open>the value of a 64-bit signed result, wrapped around\<close>
  "int64 i = signed_take_bit 63 i"

fun show_nat :: "nat \<Rightarrow> string" where
  "show_nat n =
     (if n < 10 then [''0123456789'' ! n]
      else show_nat (n div 10) @ [''0123456789'' ! (n mod 10)])"

declare show_nat.simps [simp del]

definition show_int :: "int \<Rightarrow> string" where
  \<comment> \<open>the verb \<open>%d\<close>\<close>
  "show_int i = (if i < 0 then ''-'' @ show_nat (nat (- i)) else show_nat (nat i))"

definition counter_rate :: "config \<Rightarrow> 64 word \<Rightarrow> fp" where
  \<comment> \<open>\<open>float64(c) / float64((float64(*flushInterval)*float64(time.Second))/float64(1e3))\<close>,
      where \<open>time.Second\<close> is 1000000000\<close>
  "counter_rate cfg c =
     fp_div f64 (float64_of_int (sint c))
       (fp_div f64 (fp_mul f64 (float64_of_int (flushInterval cfg)) (Fin 1000000000))
          (Fin 1000))"

definition counter_points :: "config \<Rightarrow> 32 word \<Rightarrow> string \<times> 64 word \<Rightarrow> point list" where
  "counter_points cfg now e =
     (case e of (s, c) \<Rightarrow>
        [(statsPrefix cfg @ s, FloatV (counter_rate cfg c), now),
         (countersPrefix cfg @ s, IntV (sint c), now)])"

definition gauge_points :: "config \<Rightarrow> 32 word \<Rightarrow> string \<times> 64 word \<Rightarrow> point list" where
  "gauge_points cfg now e =
     (case e of (i, g) \<Rightarrow> [(gaugesPrefix cfg @ i, IntV (sint g), now)])"

definition Less :: "fp \<Rightarrow> fp \<Rightarrow> bool" where
  \<comment> \<open>the order of \<open>sort.Float64s\<close>: \<open>x < y || (isNaN(x) && !isNaN(y))\<close>\<close>
  "Less x y = (fp_lt x y \<or> (x = NaN \<and> y \<noteq> NaN))"

fun insert_sorted :: "fp \<Rightarrow> fp list \<Rightarrow> fp list" where
  "insert_sorted x [] = [x]"
| "insert_sorted x (y # ys) = (if Less y x then y # insert_sorted x ys else x # y # ys)"

definition Float64s :: "fp list \<Rightarrow> fp list" where
  \<comment> \<open>\<open>sort.Float64s\<close>. Two values that \<open>Less\<close> does not order are equal here, so the sorted
      list does not depend on the sorting algorithm\<close>
  "Float64s t = foldr insert_sorted t []"

definition thresholdIndex :: "int \<Rightarrow> int \<Rightarrow> int" where
  \<comment> \<open>\<open>((100 - *percentThreshold) / 100) * count\<close>, Go's division truncating\<close>
  "thresholdIndex P count = int64 (int64 (int64 (100 - P) sdiv 100) * count)"

record timer_stats =
  mean :: fp
  upper :: fp
  upper_at :: fp
  lower :: fp
  count :: int

definition timer_reduce :: "int \<Rightarrow> fp list \<Rightarrow> error + timer_stats" where
  \<comment> \<open>the branch \<open>len(t) > 0\<close> of the loop over the timers. The slice \<open>t[0:numInThreshold]\<close>
      panics below 0 and above the capacity; between the length and the capacity it reads
      the spare part of the array, which is not modelled: both give \<open>SliceBeyondLength\<close>\<close>
  "timer_reduce P t =
     (let sorted = Float64s t;
          min = hd sorted;
          max = last sorted;
          count = int (length t)
      in if length t > 1 then
           let numInThreshold = int64 (count - thresholdIndex P count)
           in if numInThreshold < 0 then Inl SliceBounds
              else if count < numInThreshold then Inl SliceBeyondLength
              else
                let values = take (nat numInThreshold) sorted;
                    sum = foldl (fp_add f64) (Fin 0) values
                in Inr \<lparr>mean = fp_div f64 sum (float64_of_int numInThreshold),
                        upper = max, upper_at = max, lower = min, count = count\<rparr>
         else Inr \<lparr>mean = min, upper = max, upper_at = max, lower = min, count = count\<rparr>)"

definition timer_fields :: "config \<Rightarrow> 32 word \<Rightarrow> string \<Rightarrow> timer_stats \<Rightarrow> point list" where
  "timer_fields cfg now u r =
     [(timersPrefix cfg @ u @ ''.mean'', FloatV (mean r), now),
      (timersPrefix cfg @ u @ ''.upper'', FloatV (upper r), now),
      (timersPrefix cfg @ u @ ''.upper_'' @ show_int (percentThreshold cfg),
         FloatV (upper_at r), now),
      (timersPrefix cfg @ u @ ''.lower'', FloatV (lower r), now),
      (timersPrefix cfg @ u @ ''.count'', IntV (count r), now)]"

definition zero_stats :: timer_stats where
  "zero_stats = \<lparr>mean = Fin 0, upper = Fin 0, upper_at = Fin 0, lower = Fin 0, count = 0\<rparr>"

definition timer_points :: "config \<Rightarrow> 32 word \<Rightarrow> string \<Rightarrow> fp list \<Rightarrow> error + point list" where
  \<comment> \<open>the body of the loop over the timers, for the bucket \<open>u\<close> with observations \<open>t\<close>\<close>
  "timer_points cfg now u t =
     (if length t > 0 then
        (case timer_reduce (percentThreshold cfg) t of
           Inl e \<Rightarrow> Inl e
         | Inr r \<Rightarrow> Inr (timer_fields cfg now u r))
      else Inr (timer_fields cfg now u zero_stats))"

fun flush_timers ::
  "config \<Rightarrow> 32 word \<Rightarrow> (string \<times> fp list) list \<Rightarrow> error + point list \<times> (string \<times> fp list) list"
where
  "flush_timers cfg now [] = Inr ([], [])"
| "flush_timers cfg now ((u, t) # rest) =
     (case timer_points cfg now u t of
        Inl e \<Rightarrow> Inl e
      | Inr ps \<Rightarrow>
          (case flush_timers cfg now rest of
             Inl e \<Rightarrow> Inl e
           | Inr (qs, ts) \<Rightarrow> Inr (ps @ qs, (u, if length t > 0 then [] else t) # ts)))"

definition submit :: "config \<Rightarrow> 32 word \<Rightarrow> store \<Rightarrow> error + point list \<times> store" where
  \<comment> \<open>\<open>submit\<close>, called at a tick, \<open>now\<close> being the time read: the data points written to
      the buffer, in this order, and the store left; or the panic\<close>
  "submit cfg now st =
     (case flush_timers cfg now (timers st) of
        Inl e \<Rightarrow> Inl e
      | Inr (tps, ts) \<Rightarrow>
          (let numStats = int (length (counters st)) + int (length (gauges st))
                 + int (length (timers st))
           in Inr (concat (map (counter_points cfg now) (counters st))
                   @ concat (map (gauge_points cfg now) (gauges st))
                   @ tps
                   @ [(statsPrefix cfg @ ''statsd.numStats'', IntV numStats, now)],
                   st\<lparr>counters := map (\<lambda>(s, c). (s, 0)) (counters st), timers := ts\<rparr>)))"

definition continues :: "string \<Rightarrow> string \<Rightarrow> bool" where
  \<comment> \<open>whether the text \<open>r\<close>, put after a match whose captured rate is \<open>rate\<close>, extends
      that match: with a rate suffix when the match has none, with more digits or points when
      it has one\<close>
  "continues rate r =
     (if rate = [] then
        (case expect CHR ''|'' r of
           None \<Rightarrow> False
         | Some r1 \<Rightarrow>
             (case expect CHR ''@'' r1 of
                None \<Rightarrow> False
              | Some r2 \<Rightarrow> takeWhile value_char r2 \<noteq> []))
      else takeWhile value_char r \<noteq> [])"

section \<open>Cycles\<close>

text \<open>
  A cycle is what the loop does between two ticks: it consumes packets, then flushes. The
  packets of a cycle fall into three kinds by the branch of the loop that takes them.
\<close>

definition is_counter :: "Packet \<Rightarrow> bool" where
  "is_counter p = (Modifier p \<noteq> ''ms'' \<and> Modifier p \<noteq> ''g'')"

definition is_gauge :: "Packet \<Rightarrow> bool" where
  "is_gauge p = (Modifier p \<noteq> ''ms'' \<and> Modifier p = ''g'')"

definition is_timer :: "Packet \<Rightarrow> bool" where
  "is_timer p = (Modifier p = ''ms'')"

definition counter_buckets :: "Packet list \<Rightarrow> string set" where
  \<comment> \<open>the counter buckets that receive a sample from \<open>ps\<close>\<close>
  "counter_buckets ps = Bucket ` set (filter is_counter ps)"

definition gauge_buckets :: "Packet list \<Rightarrow> string set" where
  "gauge_buckets ps = Bucket ` set (filter is_gauge ps)"

definition timer_buckets :: "Packet list \<Rightarrow> string set" where
  "timer_buckets ps = Bucket ` set (filter is_timer ps)"

definition lookup0 :: "(string \<times> 64 word) list \<Rightarrow> string \<Rightarrow> 64 word" where
  \<comment> \<open>the value under a key, 0 for a key that is absent\<close>
  "lookup0 m k = (case map_of m k of None \<Rightarrow> 0 | Some c \<Rightarrow> c)"

section \<open>Auxiliary facts\<close>

subsection \<open>Rounding\<close>

text \<open>
  The exponent that \<open>ilog2\<close> computes is the position of the leading bit, and a finite
  result of \<open>fl_round\<close> lies within half a unit in the last place of the number rounded.
\<close>

lemma bitlen_nonneg: "0 \<le> bitlen n"
  by (induction n rule: bitlen.induct) (subst bitlen.simps, simp)

lemma bitlen_pos: "0 < n \<Longrightarrow> 1 \<le> bitlen n"
  using bitlen_nonneg [of "n div 2"] by (subst bitlen.simps) simp

lemma bitlen_bounds:
  "0 < n \<Longrightarrow> 2 ^ nat (bitlen n - 1) \<le> n \<and> n < 2 ^ nat (bitlen n)"
proof (induction n rule: bitlen.induct)
  case (1 n)
  from "1.prems" have n: "\<not> n \<le> 0"
    by simp
  have b: "bitlen n = 1 + bitlen (n div 2)"
    using n by (subst bitlen.simps) simp
  show ?case
  proof (cases "n = 1")
    case True
    have "bitlen 0 = 0"
      by (subst bitlen.simps) simp
    with True b show ?thesis
      by simp
  next
    case False
    with "1.prems" have h: "0 < n div 2"
      by simp
    define k where "k = nat (bitlen (n div 2) - 1)"
    have k: "nat (bitlen (n div 2)) = Suc k"
      using bitlen_pos [OF h] by (simp add: k_def)
    from "1.IH" [OF n h] have lo: "2 ^ k \<le> n div 2" and hi: "n div 2 < 2 ^ Suc k"
      by (simp_all only: k k_def)
    have e1: "nat (bitlen n - 1) = Suc k"
      using k by (simp add: b)
    have e2: "nat (bitlen n) = Suc (Suc k)"
      using bitlen_nonneg [of "n div 2"] k by (simp add: b nat_add_distrib)
    from lo have "2 * 2 ^ k \<le> 2 * (n div 2)"
      by simp
    also have "\<dots> \<le> n"
      by simp
    finally have lo': "2 ^ Suc k \<le> n"
      by simp
    from hi have "n div 2 + 1 \<le> 2 ^ Suc k"
      by simp
    then have "2 * (n div 2) + 2 \<le> 2 * 2 ^ Suc k"
      by simp
    moreover have "n < 2 * (n div 2) + 2"
      by presburger
    ultimately have hi': "n < 2 ^ Suc (Suc k)"
      by simp
    from lo' hi' show ?thesis
      by (simp only: e1 e2)
  qed
qed

lemma pow2_powi: "pow2 e = 2 powi e"
  by (simp add: pow2_def power_int_def inverse_eq_divide power_one_over)

lemma pow2_nat: "0 \<le> e \<Longrightarrow> pow2 e = 2 ^ nat e"
  by (simp add: pow2_def)

lemma pow2_diff: "pow2 (a - b) = pow2 a / pow2 b"
  by (simp add: pow2_powi power_int_diff)

lemma ilog2_bounds:
  assumes "0 < q"
  shows "pow2 (ilog2 q) \<le> q \<and> q < pow2 (ilog2 q + 1)"
proof -
  obtain n d where nd: "quotient_of q = (n, d)"
    by (cases "quotient_of q")
  then have d: "0 < d" and q: "q = of_int n / of_int d"
    by (rule quotient_of_denom_pos, rule quotient_of_div)
  with assms have n: "0 < n"
    by (simp add: zero_less_divide_iff)
  define c where "c = bitlen n - bitlen d"
  have bn: "(2::rat) ^ nat (bitlen n - 1) \<le> of_int n" "(of_int n :: rat) < 2 ^ nat (bitlen n)"
    using bitlen_bounds [OF n]
    by (metis of_int_le_iff of_int_numeral of_int_power, metis of_int_less_iff of_int_numeral of_int_power)
  have bd: "(2::rat) ^ nat (bitlen d - 1) \<le> of_int d" "(of_int d :: rat) < 2 ^ nat (bitlen d)"
    using bitlen_bounds [OF d]
    by (metis of_int_le_iff of_int_numeral of_int_power, metis of_int_less_iff of_int_numeral of_int_power)
  have pn: "pow2 (bitlen n - 1) \<le> of_int n" "of_int n < pow2 (bitlen n)"
    using bn bitlen_pos [OF n] by (simp_all add: pow2_nat)
  have pd: "pow2 (bitlen d - 1) \<le> of_int d" "of_int d < pow2 (bitlen d)"
    using bd bitlen_pos [OF d] by (simp_all add: pow2_nat)
  have pos: "0 < pow2 e" for e
    by (simp add: pow2_def)
  have "q < pow2 (bitlen n) / pow2 (bitlen d - 1)"
    unfolding q using pn(2) pd(1) pos [of "bitlen d - 1"] n d
    by (intro frac_less) simp_all
  also have "\<dots> = pow2 (c + 1)"
    by (simp add: c_def flip: pow2_diff) (simp add: algebra_simps)
  finally have hi: "q < pow2 (c + 1)" .
  have "pow2 (bitlen n - 1) / pow2 (bitlen d) \<le> q"
    unfolding q using pn(1) pd(2) pos [of "bitlen n - 1"] n d
    by (intro frac_le) simp_all
  moreover have "pow2 (bitlen n - 1) / pow2 (bitlen d) = pow2 (c - 1)"
    by (simp add: c_def flip: pow2_diff) (simp add: algebra_simps)
  ultimately have lo: "pow2 (c - 1) \<le> q"
    by simp
  have "ilog2 q = (if pow2 c \<le> q then c else c - 1)"
    by (simp add: ilog2_def nd c_def Let_def)
  with lo hi show ?thesis
    by (auto simp: not_le)
qed

lemma round_even_nearest: "\<bar>of_int (round_even x) - x\<bar> \<le> 1 / 2"
proof -
  have "of_int \<lfloor>x\<rfloor> \<le> x" and "x < of_int \<lfloor>x\<rfloor> + 1"
    by linarith+
  then show ?thesis
    by (auto simp: round_even_def Let_def abs_le_iff)
qed

lemma fl_round_nearest:
  assumes "fl_round p emin emax q = Fin r"
  shows "\<bar>r - q\<bar> \<le> pow2 (max (ilog2 \<bar>q\<bar>) emin - int p + 1) / 2"
proof (cases "q = 0")
  case True
  with assms show ?thesis
    by (simp add: fl_round_def pow2_def)
next
  case False
  define ulp where "ulp = pow2 (max (ilog2 \<bar>q\<bar>) emin - int p + 1)"
  define m where "m = round_even (\<bar>q\<bar> / ulp)"
  have ulp: "0 < ulp"
    by (simp add: ulp_def pow2_def)
  from assms False have r: "r = (if q < 0 then - (of_int m * ulp) else of_int m * ulp)"
    by (auto simp: fl_round_def Let_def ulp_def m_def inf_of_def split: if_splits)
  have "\<bar>of_int m - \<bar>q\<bar> / ulp\<bar> \<le> 1 / 2"
    unfolding m_def by (rule round_even_nearest)
  then have "\<bar>of_int m - \<bar>q\<bar> / ulp\<bar> * ulp \<le> 1 / 2 * ulp"
    using ulp by (intro mult_right_mono) simp_all
  moreover have "\<bar>of_int m - \<bar>q\<bar> / ulp\<bar> * ulp = \<bar>of_int m * ulp - \<bar>q\<bar>\<bar>"
  proof -
    have "(of_int m - \<bar>q\<bar> / ulp) * ulp = of_int m * ulp - \<bar>q\<bar>"
      using ulp by (simp add: left_diff_distrib)
    then have "\<bar>of_int m * ulp - \<bar>q\<bar>\<bar> = \<bar>of_int m - \<bar>q\<bar> / ulp\<bar> * \<bar>ulp\<bar>"
      by (simp only: abs_mult [symmetric])
    with ulp show ?thesis
      by simp
  qed
  ultimately have "\<bar>of_int m * ulp - \<bar>q\<bar>\<bar> \<le> ulp / 2"
    by simp
  moreover have "\<bar>r - q\<bar> = \<bar>of_int m * ulp - \<bar>q\<bar>\<bar>"
  proof (cases "q < 0")
    case True
    then have "r - q = - (of_int m * ulp - \<bar>q\<bar>)"
      by (simp add: r)
    then show ?thesis
      by (simp only: abs_minus_cancel)
  next
    case False
    then show ?thesis
      by (simp add: r)
  qed
  ultimately show ?thesis
    by (simp add: ulp_def)
qed

subsection \<open>The store under samples\<close>

lemma map_fst_map_entry: "map fst (AList.map_entry k f m) = map fst m"
  by (induction m) auto

lemma keys_ensure: "fst ` set (ensure k d m) = insert k (fst ` set m)"
  by (auto simp: ensure_def map_of_eq_None_iff image_iff)

lemma distinct_ensure: "distinct (map fst m) \<Longrightarrow> distinct (map fst (ensure k d m))"
  by (auto simp: ensure_def map_of_eq_None_iff)

lemma keys_map_entry: "fst ` set (AList.map_entry k f m) = fst ` set m"
  using map_fst_map_entry [of k f m] by (metis set_map)

lemma counters_sample:
  "fst ` set (counters (monitor_sample conv st p))
   = fst ` set (counters st) \<union> counter_buckets [p]"
  by (auto simp: monitor_sample_def Let_def counter_buckets_def is_counter_def
      keys_map_entry keys_ensure)

lemma gauges_sample:
  "fst ` set (gauges (monitor_sample conv st p))
   = fst ` set (gauges st) \<union> gauge_buckets [p]"
  by (auto simp: monitor_sample_def Let_def gauge_buckets_def is_gauge_def
      keys_map_entry keys_ensure dom_update)

lemma timers_sample:
  "fst ` set (timers (monitor_sample conv st p))
   = fst ` set (timers st) \<union> timer_buckets [p]"
  by (auto simp: monitor_sample_def Let_def timer_buckets_def is_timer_def
      keys_map_entry keys_ensure)

lemma wf_sample: "wf_store st \<Longrightarrow> wf_store (monitor_sample conv st p)"
  by (auto simp: wf_store_def monitor_sample_def Let_def map_fst_map_entry distinct_ensure
      distinct_update)

lemma buckets_Cons:
  "counter_buckets (p # ps) = counter_buckets [p] \<union> counter_buckets ps"
  "gauge_buckets (p # ps) = gauge_buckets [p] \<union> gauge_buckets ps"
  "timer_buckets (p # ps) = timer_buckets [p] \<union> timer_buckets ps"
  by (auto simp: counter_buckets_def gauge_buckets_def timer_buckets_def)

lemma buckets_Nil:
  "counter_buckets [] = {}" "gauge_buckets [] = {}" "timer_buckets [] = {}"
  by (auto simp: counter_buckets_def gauge_buckets_def timer_buckets_def)

lemma monitor_samples_Nil: "monitor_samples conv st [] = st"
  by (simp add: monitor_samples_def)

lemma monitor_samples_Cons:
  "monitor_samples conv st (p # ps) = monitor_samples conv (monitor_sample conv st p) ps"
  by (simp add: monitor_samples_def)

lemma counters_samples:
  "fst ` set (counters (monitor_samples conv st ps))
   = fst ` set (counters st) \<union> counter_buckets ps"
proof (induction ps arbitrary: st)
  case Nil
  show ?case by (simp add: monitor_samples_Nil buckets_Nil)
next
  case (Cons p ps)
  show ?case
    unfolding monitor_samples_Cons Cons.IH counters_sample buckets_Cons(1) [of p ps]
    by (simp add: Un_assoc)
qed

lemma gauges_samples:
  "fst ` set (gauges (monitor_samples conv st ps))
   = fst ` set (gauges st) \<union> gauge_buckets ps"
proof (induction ps arbitrary: st)
  case Nil
  show ?case by (simp add: monitor_samples_Nil buckets_Nil)
next
  case (Cons p ps)
  show ?case
    unfolding monitor_samples_Cons Cons.IH gauges_sample buckets_Cons(2) [of p ps]
    by (simp add: Un_assoc)
qed

lemma timers_samples:
  "fst ` set (timers (monitor_samples conv st ps))
   = fst ` set (timers st) \<union> timer_buckets ps"
proof (induction ps arbitrary: st)
  case Nil
  show ?case by (simp add: monitor_samples_Nil buckets_Nil)
next
  case (Cons p ps)
  show ?case
    unfolding monitor_samples_Cons Cons.IH timers_sample buckets_Cons(3) [of p ps]
    by (simp add: Un_assoc)
qed

lemma wf_samples: "wf_store st \<Longrightarrow> wf_store (monitor_samples conv st ps)"
  by (induction ps arbitrary: st) (auto simp: monitor_samples_Nil monitor_samples_Cons wf_sample)

lemma map_of_ensure_same:
  "map_of (ensure k d m) k = Some (case map_of m k of None \<Rightarrow> d | Some v \<Rightarrow> v)"
  by (auto simp: ensure_def map_add_def split: option.splits)

lemma counter_sample_value:
  assumes "is_counter p" and "Bucket p = b"
  shows "map_of (counters (monitor_sample conv st p)) b
         = Some (lookup0 (counters st) b + counter_increment conv p)"
  using assms
  by (simp add: monitor_sample_def is_counter_def map_of_map_entry map_of_ensure_same
      lookup0_def)

lemma counter_samples_value:
  assumes "\<forall>p\<in>set ps. is_counter p \<and> Bucket p = b"
  shows "lookup0 (counters (monitor_samples conv st ps)) b
         = lookup0 (counters st) b + sum_list (map (counter_increment conv) ps)"
  using assms
proof (induction ps arbitrary: st)
  case Nil
  show ?case by (simp add: monitor_samples_Nil)
next
  case (Cons p ps)
  from Cons.prems have p: "is_counter p" "Bucket p = b"
    and rest: "\<forall>p\<in>set ps. is_counter p \<and> Bucket p = b"
    by simp_all
  have "lookup0 (counters (monitor_sample conv st p)) b
        = lookup0 (counters st) b + counter_increment conv p"
    using counter_sample_value [OF p, of conv st] by (simp add: lookup0_def)
  with Cons.IH [OF rest, of "monitor_sample conv st p"] show ?case
    by (simp add: monitor_samples_Cons add.assoc)
qed

subsection \<open>The store and the output of a flush\<close>

lemma submit_out:
  assumes "submit cfg now st = Inr (out, st')"
  obtains tps ts where "flush_timers cfg now (timers st) = Inr (tps, ts)"
    and "out = concat (map (counter_points cfg now) (counters st))
               @ concat (map (gauge_points cfg now) (gauges st)) @ tps
               @ [(statsPrefix cfg @ ''statsd.numStats'',
                   IntV (int (length (counters st)) + int (length (gauges st))
                         + int (length (timers st))), now)]"
  using assms by (auto simp: submit_def Let_def split: sum.splits)




lemma flush_timers_store:
  "flush_timers cfg now ts = Inr (ps, ts') \<Longrightarrow> ts' = map (\<lambda>(u, t). (u, [])) ts"
proof (induction ts arbitrary: ps ts')
  case Nil
  then show ?case by simp
next
  case (Cons e ts)
  obtain u t where e: "e = (u, t)" by (cases e)
  from Cons.prems obtain rs ts0 where
    "flush_timers cfg now ts = Inr (rs, ts0)" and "ts' = (u, if length t > 0 then [] else t) # ts0"
    by (auto simp: e split: sum.splits)
  with Cons.IH show ?case by (simp add: e)
qed

lemma submit_store:
  assumes "submit cfg now st = Inr (out, st')"
  shows "counters st' = map (\<lambda>(s, c). (s, 0)) (counters st)"
    and "timers st' = map (\<lambda>(u, t). (u, [])) (timers st)"
    and "gauges st' = gauges st"
  using assms
  by (auto simp: submit_def Let_def split: sum.splits dest: flush_timers_store)



subsection \<open>Sorting and the trim count\<close>















subsection \<open>Matching a text that is followed by more text\<close>

lemma takeWhile_app_stop:
  "dropWhile P s \<noteq> [] \<Longrightarrow> takeWhile P (s @ r) = takeWhile P s"
  by (induction s) auto

lemma dropWhile_app_stop:
  "dropWhile P s \<noteq> [] \<Longrightarrow> dropWhile P (s @ r) = dropWhile P s @ r"
  by (induction s) auto

lemma takeWhile_app_all:
  "dropWhile P s = [] \<Longrightarrow> takeWhile P (s @ r) = s @ takeWhile P r"
  by (induction s) (auto split: if_splits)

lemma dropWhile_app_all:
  "dropWhile P s = [] \<Longrightarrow> dropWhile P (s @ r) = dropWhile P r"
  by (induction s) (auto split: if_splits)

lemma match_name_app:
  "match_name s = Some (n, r1) \<Longrightarrow> r1 \<noteq> [] \<Longrightarrow> match_name (s @ r) = Some (n, r1 @ r)"
  by (auto simp: match_name_def takeWhile_app_stop dropWhile_app_stop split: if_splits)

lemma expect_app: "expect c s = Some r1 \<Longrightarrow> expect c (s @ r) = Some (r1 @ r)"
  by (auto simp: expect_def split: list.splits if_splits)

lemma expect_nonempty: "expect c s = Some r1 \<Longrightarrow> s \<noteq> []"
  by (auto simp: expect_def)

lemma match_value_app:
  "match_value s = Some (v, r1) \<Longrightarrow> r1 \<noteq> [] \<Longrightarrow> match_value (s @ r) = Some (v, r1 @ r)"
  by (cases s)
     (auto simp: match_value_def expect_def takeWhile_app_stop dropWhile_app_stop
       simp del: takeWhile_append dropWhile_append
       split: if_splits list.splits)

lemma match_type_app:
  "match_type s = Some (ty, r1) \<Longrightarrow> match_type (s @ r) = Some (ty, r1 @ r)"
  by (auto simp: match_type_def expect_def split: list.splits if_splits option.splits)

lemma match_rate_app:
  assumes "match_rate s = (rate, [])" and "\<not> continues rate r"
  shows "match_rate (s @ r) = (rate, r)"
proof (cases "s = []")
  case True
  with assms(1) have "rate = []"
    by (simp add: match_rate_def expect_def)
  with assms(2) True show ?thesis
    by (auto simp: match_rate_def continues_def split: option.splits)
next
  case False
  with assms(1) obtain ds where s: "s = ''|@'' @ ds" and ds: "takeWhile value_char ds \<noteq> []"
    and all: "dropWhile value_char ds = []" and rate: "rate = takeWhile value_char ds"
    by (auto simp: match_rate_def expect_def split: list.splits if_splits)
  from all have tw: "takeWhile value_char ds = ds"
    by (metis takeWhile_dropWhile_id append_Nil2)
  with ds rate have "rate \<noteq> []" and "rate = ds"
    by simp_all
  with assms(2) have stop: "takeWhile value_char r = []"
    by (simp add: continues_def)
  have "takeWhile value_char (ds @ r) = ds"
    using takeWhile_app_all [OF all, of r] stop by simp
  moreover have "dropWhile value_char (ds @ r) = r"
    using dropWhile_app_all [OF all, of r] stop
    by (metis takeWhile_dropWhile_id append_Nil)
  ultimately show ?thesis
    using \<open>rate = ds\<close> \<open>rate \<noteq> []\<close>
    by (simp add: s match_rate_def expect_def del: takeWhile_append dropWhile_append)
qed

lemma match_at_app:
  assumes "match_at e = Some (item, [])" and "\<not> continues (item ! 5) r"
  shows "match_at (e @ r) = Some (item, r)"
proof -
  from assms(1) obtain n r1 r2 v r3 r4 ty r5 rate where
    n: "match_name e = Some (n, r1)" and c: "expect CHR '':'' r1 = Some r2"
    and v: "match_value r2 = Some (v, r3)" and b: "expect CHR ''|'' r3 = Some r4"
    and t: "match_type r4 = Some (ty, r5)" and q: "match_rate r5 = (rate, [])"
    and item: "item = [n @ '':'' @ v @ ''|'' @ ty @ (if rate = [] then [] else ''|@'' @ rate),
                       n, v, ty, (if rate = [] then [] else ''|@'' @ rate), rate]"
    by (auto simp: match_at_def Let_def split: option.splits prod.splits)
  from item have "item ! 5 = rate"
    by simp
  with assms(2) have q': "match_rate (r5 @ r) = (rate, r)"
    using match_rate_app [OF q] by simp
  have "match_name (e @ r) = Some (n, r1 @ r)"
    using n c by (intro match_name_app) (auto dest: expect_nonempty)
  moreover have "expect CHR '':'' (r1 @ r) = Some (r2 @ r)"
    using c by (rule expect_app)
  moreover have "match_value (r2 @ r) = Some (v, r3 @ r)"
    using v b by (intro match_value_app) (auto dest: expect_nonempty)
  moreover have "expect CHR ''|'' (r3 @ r) = Some (r4 @ r)"
    using b by (rule expect_app)
  moreover have "match_type (r4 @ r) = Some (ty, r5 @ r)"
    using t by (rule match_type_app)
  ultimately show ?thesis
    using q' by (simp add: match_at_def item Let_def)
qed


subsection \<open>A flush with a threshold from 1 to 99 completes\<close>




subsection \<open>What a flush reports, and the flush after it\<close>









subsection \<open>What the decoder can send\<close>

text \<open>
  The value of a decoded packet is made of digits, points and the minus sign, and its rate is
  the rounding of a decimal without a sign, or 1: never negative, never a NaN.
\<close>

lemma pow2_pos: "0 < pow2 e"
  by (simp add: pow2_def)

lemma round_even_nonneg: "0 \<le> x \<Longrightarrow> 0 \<le> round_even x"
  by (auto simp: round_even_def Let_def)

lemma fl_round_nonneg:
  assumes "0 \<le> q"
  shows "\<not> negative (fl_round p emin emax q) \<and> fl_round p emin emax q \<noteq> NaN"
proof (cases "q = 0")
  case True
  then show ?thesis by (simp add: fl_round_def negative_def)
next
  case False
  with assms have "0 < q" by simp
  then have "0 \<le> round_even (\<bar>q\<bar> / pow2 e)" for e
    using pow2_pos [of e] by (intro round_even_nonneg) simp
  then have "0 \<le> of_int (round_even (\<bar>q\<bar> / pow2 e)) * pow2 e" for e
    using pow2_pos [of e] by (simp add: less_imp_le)
  with \<open>0 < q\<close> show ?thesis
    by (simp add: fl_round_def Let_def negative_def inf_of_def not_less)
qed

lemma digits_val_nonneg:
  "list_all is_digit ds \<Longrightarrow> 0 \<le> n \<Longrightarrow> 0 \<le> foldl (\<lambda>n c. 10 * n + digit_val c) n ds"
proof (induction ds arbitrary: n)
  case Nil
  then show ?case by simp
next
  case (Cons c ds)
  from Cons.prems have "is_digit c" by simp
  then have "0 \<le> digit_val c"
    by (auto simp: is_digit_def digit_val_def)
  with Cons show ?case by simp
qed

lemma takeWhile_all: "list_all P (takeWhile P xs)"
  by (induction xs) auto

lemma parse_decimal_nonneg:
  assumes "parse_decimal s = Some (neg, m)"
  shows "0 \<le> m"
proof -
  have "0 \<le> digits_val (takeWhile is_digit a @ takeWhile is_digit b)" for a b
    unfolding digits_val_def
    by (rule digits_val_nonneg) (simp_all add: takeWhile_all)
  moreover have "0 \<le> digits_val (takeWhile is_digit a @ [])" for a
    unfolding digits_val_def
    by (rule digits_val_nonneg) (simp_all add: takeWhile_all)
  ultimately show ?thesis
    using assms
    by (auto simp: parse_decimal_def Let_def split: prod.splits list.splits if_splits)
qed

lemma parse_decimal_unsigned:
  assumes "\<forall>c\<in>set s. value_char c" and "parse_decimal s = Some (neg, m)"
  shows "\<not> neg"
proof (cases s)
  case Nil
  with assms(2) show ?thesis
    by (simp add: parse_decimal_def split_sign_def)
next
  case (Cons c r)
  with assms(1) have "c \<noteq> CHR ''-''"
    by (auto simp: value_char_def)
  with Cons assms(2) show ?thesis
    by (auto simp: parse_decimal_def split_sign_def Let_def split: prod.splits if_splits)
qed

lemma ParseFloat_unsigned:
  assumes "\<forall>c\<in>set s. value_char c"
  shows "\<not> negative (fst (ParseFloat (fl_round p emin emax) s))
         \<and> fst (ParseFloat (fl_round p emin emax) s) \<noteq> NaN"
proof (cases "parse_decimal s")
  case None
  then show ?thesis
    by (simp add: ParseFloat_def negative_def)
next
  case (Some a)
  obtain neg m where a: "a = (neg, m)" by (cases a)
  from Some a have "\<not> neg" and "0 \<le> m"
    using parse_decimal_unsigned [OF assms] parse_decimal_nonneg by blast+
  with Some a fl_round_nonneg [of m p emin emax] show ?thesis
    by (simp add: ParseFloat_def Let_def)
qed

lemma match_rate_chars: "match_rate s = (rate, r) \<Longrightarrow> \<forall>c\<in>set rate. value_char c"
  by (auto simp: match_rate_def split: option.splits if_splits dest: set_takeWhileD)

lemma match_value_chars:
  "match_value s = Some (v, r) \<Longrightarrow> \<forall>c\<in>set v. value_char c \<or> c = CHR ''-''"
  by (auto simp: match_value_def Let_def split: option.splits if_splits prod.splits
      dest: set_takeWhileD)

lemma match_at_groups:
  assumes "match_at s = Some (item, r)"
  shows "(\<forall>c\<in>set (item ! 2). value_char c \<or> c = CHR ''-'') \<and> (\<forall>c\<in>set (item ! 5). value_char c)"
proof -
  from assms obtain n r2 v r3 r4 ty r5 rate where
    v: "match_value r2 = Some (v, r3)" and q: "match_rate r5 = (rate, r)"
    and item: "item ! 2 = v" "item ! 5 = rate"
    by (auto simp: match_at_def Let_def split: option.splits prod.splits)
  from match_value_chars [OF v] match_rate_chars [OF q] item show ?thesis
    by simp
qed

lemma FindAll_matches:
  "item \<in> set (FindAll s) \<Longrightarrow> \<exists>s' r. match_at s' = Some (item, r)"
proof (induction s rule: FindAll.induct)
  case (1 s)
  show ?case
  proof (cases "s = []")
    case True
    with "1.prems" show ?thesis
      by (simp add: FindAll.simps)
  next
    case False
    show ?thesis
    proof (cases "match_at s")
      case None
      with False "1.prems" have "item \<in> set (FindAll (tl s))"
        by (subst (asm) FindAll.simps) simp
      with "1.IH"(1) [OF False None] show ?thesis
        by blast
    next
      case (Some a)
      obtain it rest where a: "a = (it, rest)" by (cases a)
      from False Some a "1.prems" have "item = it \<or> item \<in> set (FindAll rest)"
        by (subst (asm) FindAll.simps) auto
      then show ?thesis
      proof
        assume "item = it"
        with Some a show ?thesis by blast
      next
        assume "item \<in> set (FindAll rest)"
        with "1.IH"(2) [OF False Some a [symmetric]] show ?thesis
          by blast
      qed
    qed
  qed
qed

lemma decoded_value_chars:
  assumes "p \<in> set (handleMessage buf)"
  shows "\<forall>c\<in>set (Value p). value_char c \<or> c = CHR ''-''"
proof -
  from assms obtain item where "item \<in> set (FindAll (sanitize buf))" and p: "p = to_packet item"
    by (auto simp: handleMessage_def)
  then obtain s r where "match_at s = Some (item, r)"
    using FindAll_matches by blast
  from match_at_groups [OF this] p show ?thesis
    by (auto simp: to_packet_def Let_def value_char_def split: prod.splits)
qed

lemma decoded_rate_not_negative:
  assumes "p \<in> set (handleMessage buf)"
  shows "\<not> negative (Sampling p) \<and> Sampling p \<noteq> NaN"
proof -
  from assms obtain item where "item \<in> set (FindAll (sanitize buf))" and p: "p = to_packet item"
    by (auto simp: handleMessage_def)
  then obtain s r where "match_at s = Some (item, r)"
    using FindAll_matches by blast
  from match_at_groups [OF this] have "\<forall>c\<in>set (item ! 5). value_char c"
    by simp
  from ParseFloat_unsigned [OF this, of 24 "- 126" 127]
  have pf: "\<not> negative (fst (ParseFloat f32 (item ! 5)))" "fst (ParseFloat f32 (item ! 5)) \<noteq> NaN"
    by (simp_all add: f32_def)
  define x where "x = (if snd (ParseFloat f32 (item ! 5)) then Fin 1
                       else fst (ParseFloat f32 (item ! 5)))"
  from pf have x: "\<not> negative x" "x \<noteq> NaN"
    by (simp_all add: x_def negative_def)
  have "\<not> negative (float32 x) \<and> float32 x \<noteq> NaN"
  proof (cases x)
    case (Fin q)
    with x have "0 \<le> q" by (simp add: negative_def)
    from fl_round_nonneg [OF this, of 24 "- 126" 127] Fin show ?thesis
      by (simp add: float32_def f32_def)
  qed (use x in \<open>simp_all add: float32_def\<close>)
  moreover have "Sampling p = float32 x"
    by (simp add: p to_packet_def Let_def x_def split: prod.splits)
  ultimately show ?thesis
    by simp
qed

section \<open>Gauges\<close>

text \<open>
  C1. From a store without the bucket \<open>temp\<close>, the datagrams \<open>temp:5|g\<close>, \<open>temp:+3|g\<close> and
  \<open>temp:-1|g\<close> should leave the gauge at 7, the signed values acting as deltas. The consumer
  loop does add a value that starts with \<open>+\<close>, but no such value reaches it: the decoder
  removes the character \<open>+\<close> from the datagram, and the pattern admits no \<open>+\<close> either. The
  second datagram is therefore decoded with the value \<open>3\<close> and replaces the gauge, which ends
  at 2. A later \<open>temp:9|g\<close> sets it to 9.
\<close>

theorem gauge_plus_delta_lost:
  "handleMessage ''temp:+3|g'' =
     [\<lparr>Bucket = ''temp'', Value = ''3'', Modifier = ''g'', Sampling = Fin 1\<rparr>]
   \<and> gauges (receive conv_amd64 (receive conv_amd64 (receive conv_amd64 empty_store
         ''temp:5|g'') ''temp:+3|g'') ''temp:-1|g'') = [(''temp'', 2)]
   \<and> gauges (receive conv_amd64 (receive conv_amd64 (receive conv_amd64 (receive conv_amd64
         empty_store ''temp:5|g'') ''temp:+3|g'') ''temp:-1|g'') ''temp:9|g'') = [(''temp'', 9)]
   \<and> gauges (monitor_sample conv_amd64 \<lparr>counters = [], timers = [], gauges = [(''temp'', 5)]\<rparr>
         \<lparr>Bucket = ''temp'', Value = ''+3'', Modifier = ''g'', Sampling = Fin 1\<rparr>)
       = [(''temp'', 8)]"
  by code_simp

section \<open>Counters\<close>

text \<open>
  C3, as the specification states it: the counter of a bucket holds the sum of the quotients
  value / rate of its samples. The counters are integers and each sample adds
  \<open>int(float32(value) * (1 / rate))\<close>, the fraction of the product discarded. The datagram
  \<open>a:1.5|c\<close> has the value 3/2 and the rate 1, and leaves the counter at 1.
\<close>

theorem counter_drops_fraction:
  "handleMessage ''a:1.5|c''
     = [\<lparr>Bucket = ''a'', Value = ''1.5'', Modifier = ''c'', Sampling = Fin 1\<rparr>]
   \<and> ParseFloat f32 ''1.5'' = (Fin (3 / 2), False)
   \<and> counters (receive conv_amd64 empty_store ''a:1.5|c'') = [(''a'', 1)]
   \<and> (3 / 2 / 1 :: rat) \<noteq> of_int (sint (1 :: 64 word))"
  by code_simp

text \<open>
  C3, amended. For every sequence of counter samples of one bucket, consumed with no flush in
  between, the counter grows by the sum, modulo \<open>2^64\<close>, of the increments of the samples,
  the increment of a sample being the \<open>float32\<close> product of its value and of 1 / rate cut
  to an integer. In particular ten samples decoded from \<open>hits:1|c|@0.1\<close> leave exactly 100
  in a fresh store.
\<close>

theorem counter_sums_truncated_increments:
  assumes "\<forall>p\<in>set ps. is_counter p \<and> Bucket p = b"
  shows "lookup0 (counters (monitor_samples conv st ps)) b
           = lookup0 (counters st) b + sum_list (map (counter_increment conv) ps)
         \<and> counters (monitor_samples conv empty_store
               (concat (replicate 10 (handleMessage ''hits:1|c|@0.1''))))
           = [(''hits'', 100)]"
proof -
  have "counters (monitor_samples conv empty_store
          (concat (replicate 10 (handleMessage ''hits:1|c|@0.1'')))) = [(''hits'', 100)]"
    by code_simp
  with counter_samples_value [OF assms] show ?thesis
    by blast
qed

text \<open>
  The amended claim at two samples of the bucket \<open>a\<close>: 1.5 at rate 1 adds 1, and 2 at rate
  0.3 adds 6, the integer part of 2 * 3.3333333.
\<close>

theorem counter_sums_truncated_increments_witness:
  "list_all (\<lambda>p. is_counter p \<and> Bucket p = ''a'')
     [\<lparr>Bucket = ''a'', Value = ''1.5'', Modifier = ''c'', Sampling = Fin 1\<rparr>,
      \<lparr>Bucket = ''a'', Value = ''2'', Modifier = ''c'', Sampling = f32 (3 / 10)\<rparr>]
   \<and> lookup0 (counters (monitor_samples conv_amd64 empty_store
          [\<lparr>Bucket = ''a'', Value = ''1.5'', Modifier = ''c'', Sampling = Fin 1\<rparr>,
           \<lparr>Bucket = ''a'', Value = ''2'', Modifier = ''c'', Sampling = f32 (3 / 10)\<rparr>])) ''a''
     = 7"
proof -
  let ?ps = "[\<lparr>Bucket = ''a'', Value = ''1.5'', Modifier = ''c'', Sampling = Fin 1\<rparr>,
              \<lparr>Bucket = ''a'', Value = ''2'', Modifier = ''c'', Sampling = f32 (3 / 10)\<rparr>]"
  have h: "\<forall>p\<in>set ?ps. is_counter p \<and> Bucket p = ''a''"
    by (simp add: is_counter_def)
  have e: "lookup0 (counters empty_store) ''a''
           + sum_list (map (counter_increment conv_amd64) ?ps) = 7"
    by code_simp
  from counter_sums_truncated_increments [OF h, of conv_amd64 empty_store]
  have "lookup0 (counters (monitor_samples conv_amd64 empty_store ?ps)) ''a''
        = lookup0 (counters empty_store) ''a''
          + sum_list (map (counter_increment conv_amd64) ?ps)"
    by blast
  moreover from h have "list_all (\<lambda>p. is_counter p \<and> Bucket p = ''a'') ?ps"
    by (simp only: list_all_iff)
  ultimately show ?thesis
    using e by (simp only: simp_thms)
qed

text \<open>
  C10. The pattern of the sample rate accepts every string of digits and points, \<open>0\<close>
  among them, and the counter update divides 1 by the rate unguarded: the datagram
  \<open>a:1|c|@0\<close> is decoded into a sample of rate 0, the factor \<open>1 / 0\<close> is the \<open>float32\<close>
  infinity, and the counter grows by the integer conversion of that infinity, whatever the
  platform makes of it. The sample is not rejected.
\<close>

theorem zero_rate_not_guarded:
  "(ds \<noteq> [] \<and> list_all value_char ds \<longrightarrow> match_rate (''|@'' @ ds) = (ds, []))
   \<and> handleMessage ''a:1|c|@0'' =
     [\<lparr>Bucket = ''a'', Value = ''1'', Modifier = ''c'', Sampling = Fin 0\<rparr>]
   \<and> fp_mul f32 (Fin 1) (fp_div f32 (Fin 1) (Fin 0)) = PInf
   \<and> counter_increment conv
         \<lparr>Bucket = ''a'', Value = ''1'', Modifier = ''c'', Sampling = Fin 0\<rparr>
       = int_of_float conv PInf
   \<and> counters (receive conv empty_store ''a:1|c|@0'') = [(''a'', int_of_float conv PInf)]"
proof -
  have rate: "match_rate (''|@'' @ ds) = (ds, [])" if "ds \<noteq> []" and "list_all value_char ds"
  proof -
    from that(2) have all: "takeWhile value_char ds = ds" "dropWhile value_char ds = []"
      by (simp_all add: list_all_iff)
    from that(1) show ?thesis
      by (simp add: match_rate_def expect_def all)
  qed
  let ?p = "\<lparr>Bucket = ''a'', Value = ''1'', Modifier = ''c'', Sampling = Fin 0\<rparr>"
  have dec: "handleMessage ''a:1|c|@0'' = [?p]"
    by code_simp
  have prod: "fp_mul f32 (Fin 1) (fp_div f32 (Fin 1) (Fin 0)) = PInf"
    by code_simp
  have inc: "counter_increment conv ?p = int_of_float conv PInf"
    by code_simp
  have "counters (receive conv empty_store ''a:1|c|@0'')
        = [(''a'', 0 + counter_increment conv ?p)]"
    unfolding receive_def dec
    by (simp add: monitor_samples_def monitor_sample_def ensure_def empty_store_def)
  with rate dec prod inc show ?thesis
    by simp
qed

text \<open>
  The rate \<open>0.0\<close> is accepted as well; and where the conversion of an infinity gives the
  least integer, the counter of the datagram \<open>a:1|c|@0\<close> holds that integer.
\<close>

theorem zero_rate_not_guarded_witness:
  "''0.0'' \<noteq> [] \<and> list_all value_char ''0.0''
   \<and> match_rate ''|@0.0'' = (''0.0'', [])
   \<and> counters (receive conv_amd64 empty_store ''a:1|c|@0'') = [(''a'', 0x8000000000000000)]"
proof -
  have h: "''0.0'' \<noteq> [] \<and> list_all value_char ''0.0''"
    by (simp add: value_char_def)
  have c: "int_of_float conv_amd64 PInf = 0x8000000000000000"
    by (simp add: int_of_float_def conv_amd64_def)
  from zero_rate_not_guarded [of "''0.0''" conv_amd64] h
  have "match_rate (''|@'' @ ''0.0'') = (''0.0'', [])"
    and "counters (receive conv_amd64 empty_store ''a:1|c|@0'')
         = [(''a'', int_of_float conv_amd64 PInf)]"
    by blast+
  with h c show ?thesis
    by simp
qed

section \<open>The flush\<close>

text \<open>
  C4. The rate emitted for a counter should be its raw count divided by the flush interval in
  seconds: a count of 100 and the default interval of 10 seconds give 10. The code divides the
  count by \<open>flushInterval * time.Second / 1e3\<close>; \<open>time.Second\<close> counts nanoseconds, so
  the divisor is the interval in microseconds and the rate emitted is 100 / 10000000, rounded.
\<close>

theorem counter_rate_per_microsecond:
  "counter_rate default_config 100 = f64 (1 / 100000)
   \<and> counter_rate default_config 100 \<noteq> Fin 10
   \<and> submit default_config now \<lparr>counters = [(''hits'', 100)], timers = [], gauges = []\<rparr>
       = Inr ([(''stats.hits'', FloatV (f64 (1 / 100000)), now),
               (''stats.counters.hits'', IntV 100, now),
               (''stats.statsd.numStats'', IntV 1, now)],
              \<lparr>counters = [(''hits'', 0)], timers = [], gauges = []\<rparr>)"
  by code_simp




text \<open>
  C6. When a flush completes, every counter is 0 and every timer has an empty list of
  observations, under the same keys in the same order, and the gauges are what they were.
\<close>

theorem flush_resets_counters_and_timers_only:
  assumes "submit cfg now st = Inr (out, st')"
  shows "counters st' = map (\<lambda>(s, c). (s, 0)) (counters st)
         \<and> timers st' = map (\<lambda>(u, t). (u, [])) (timers st)
         \<and> gauges st' = gauges st"
  using submit_store [OF assms] by simp

text \<open>A flush of a store with a counter, a timer and a gauge.\<close>

theorem flush_resets_counters_and_timers_only_witness:
  "submit default_config 77
     \<lparr>counters = [(''a'', 7)], timers = [(''b'', [Fin 3, Fin 1])], gauges = [(''g'', 5)]\<rparr>
   = Inr ([(''stats.a'', FloatV (counter_rate default_config 7), 77),
           (''stats.counters.a'', IntV 7, 77),
           (''stats.gauges.g'', IntV 5, 77),
           (''stats.timers.b.mean'', FloatV (Fin 2), 77),
           (''stats.timers.b.upper'', FloatV (Fin 3), 77),
           (''stats.timers.b.upper_90'', FloatV (Fin 3), 77),
           (''stats.timers.b.lower'', FloatV (Fin 1), 77),
           (''stats.timers.b.count'', IntV 2, 77),
           (''stats.statsd.numStats'', IntV 3, 77)],
          \<lparr>counters = [(''a'', 0)], timers = [(''b'', [])], gauges = [(''g'', 5)]\<rparr>)
   \<and> counters \<lparr>counters = [(''a'', 0)], timers = [(''b'', [])], gauges = [(''g'', 5)]\<rparr>
       = map (\<lambda>(s, c). (s, 0)) [(''a'', 7 :: 64 word)]
   \<and> timers \<lparr>counters = [(''a'', 0 :: 64 word)], timers = [(''b'', [])], gauges = [(''g'', 5 :: 64 word)]\<rparr>
       = map (\<lambda>(u, t). (u, [])) [(''b'', [Fin 3, Fin 1])]
   \<and> gauges \<lparr>counters = [(''a'', 0 :: 64 word)], timers = [(''b'', [] :: fp list)], gauges = [(''g'', 5)]\<rparr>
       = [(''g'', 5 :: 64 word)]"
proof -
  have h: "submit default_config 77
     \<lparr>counters = [(''a'', 7)], timers = [(''b'', [Fin 3, Fin 1])], gauges = [(''g'', 5)]\<rparr>
   = Inr ([(''stats.a'', FloatV (counter_rate default_config 7), 77),
           (''stats.counters.a'', IntV 7, 77),
           (''stats.gauges.g'', IntV 5, 77),
           (''stats.timers.b.mean'', FloatV (Fin 2), 77),
           (''stats.timers.b.upper'', FloatV (Fin 3), 77),
           (''stats.timers.b.upper_90'', FloatV (Fin 3), 77),
           (''stats.timers.b.lower'', FloatV (Fin 1), 77),
           (''stats.timers.b.count'', IntV 2, 77),
           (''stats.statsd.numStats'', IntV 3, 77)],
          \<lparr>counters = [(''a'', 0)], timers = [(''b'', [])], gauges = [(''g'', 5)]\<rparr>)"
    by code_simp
  from flush_resets_counters_and_timers_only [OF h] h show ?thesis
    by simp
qed

text \<open>
  C7, as the specification states it: \<open>numStats\<close> counts the counter buckets with activity
  in the cycle, the gauge buckets and the timer buckets. The loop over the counters
  increments \<open>numStats\<close> for every key of the map, and a flushed counter keeps its key: after
  a cycle without any sample the store with the idle counter \<open>a\<close>, the gauge \<open>g\<close> and the
  timer \<open>idle\<close> reports 3, where the count of the claim is 0 + 1 + 1 = 2.
\<close>

theorem numStats_counts_idle_counter:
  "submit default_config 77
     (monitor_samples conv_amd64
        \<lparr>counters = [(''a'', 0)], timers = [(''idle'', [])], gauges = [(''g'', 5)]\<rparr> [])
   = Inr ([(''stats.a'', FloatV (Fin 0), 77),
           (''stats.counters.a'', IntV 0, 77),
           (''stats.gauges.g'', IntV 5, 77),
           (''stats.timers.idle.mean'', FloatV (Fin 0), 77),
           (''stats.timers.idle.upper'', FloatV (Fin 0), 77),
           (''stats.timers.idle.upper_90'', FloatV (Fin 0), 77),
           (''stats.timers.idle.lower'', FloatV (Fin 0), 77),
           (''stats.timers.idle.count'', IntV 0, 77),
           (''stats.statsd.numStats'', IntV 3, 77)],
          \<lparr>counters = [(''a'', 0)], timers = [(''idle'', [])], gauges = [(''g'', 5)]\<rparr>)
   \<and> card (counter_buckets []) + card (fst ` set [(''g'', 5 :: 64 word)])
       + card (fst ` set [(''idle'', [] :: fp list)]) = 2"
proof -
  have "card (counter_buckets []) + card (fst ` set [(''g'', 5 :: 64 word)])
        + card (fst ` set [(''idle'', [] :: fp list)]) = 2"
    by (simp add: counter_buckets_def)
  moreover have "submit default_config 77
     (monitor_samples conv_amd64
        \<lparr>counters = [(''a'', 0)], timers = [(''idle'', [])], gauges = [(''g'', 5)]\<rparr> [])
   = Inr ([(''stats.a'', FloatV (Fin 0), 77),
           (''stats.counters.a'', IntV 0, 77),
           (''stats.gauges.g'', IntV 5, 77),
           (''stats.timers.idle.mean'', FloatV (Fin 0), 77),
           (''stats.timers.idle.upper'', FloatV (Fin 0), 77),
           (''stats.timers.idle.upper_90'', FloatV (Fin 0), 77),
           (''stats.timers.idle.lower'', FloatV (Fin 0), 77),
           (''stats.timers.idle.count'', IntV 0, 77),
           (''stats.statsd.numStats'', IntV 3, 77)],
          \<lparr>counters = [(''a'', 0)], timers = [(''idle'', [])], gauges = [(''g'', 5)]\<rparr>)"
    by code_simp
  ultimately show ?thesis
    by (simp only: simp_thms)
qed

text \<open>
  C7, amended. The value of the final metric \<open>numStats\<close> is the number of counter buckets
  in the store, with or without activity in the cycle, plus the number of gauge buckets plus
  the number of timer buckets, timers without observations included. The buckets of each
  kind are those of the store at the start of the cycle and those that received a sample of
  that kind during the cycle.
\<close>

theorem numStats_counts_every_bucket:
  assumes "wf_store st"
    and "submit cfg now (monitor_samples conv st ps) = Inr (out, st')"
  shows "last out =
           (statsPrefix cfg @ ''statsd.numStats'',
            IntV (int (card (fst ` set (counters st) \<union> counter_buckets ps))
                  + int (card (fst ` set (gauges st) \<union> gauge_buckets ps))
                  + int (card (fst ` set (timers st) \<union> timer_buckets ps))),
            now)"
proof -
  let ?s = "monitor_samples conv st ps"
  have wf: "wf_store ?s"
    using assms(1) by (rule wf_samples)
  have len: "length m = card (fst ` set m)" if "distinct (map fst m)" for m :: "(string \<times> 'v) list"
    using distinct_card [OF that] by simp
  from wf have
    "length (counters ?s) = card (fst ` set (counters st) \<union> counter_buckets ps)"
    "length (gauges ?s) = card (fst ` set (gauges st) \<union> gauge_buckets ps)"
    "length (timers ?s) = card (fst ` set (timers st) \<union> timer_buckets ps)"
    by (simp_all add: wf_store_def len counters_samples gauges_samples timers_samples)
  moreover from assms(2) have
    "last out = (statsPrefix cfg @ ''statsd.numStats'',
                 IntV (int (length (counters ?s)) + int (length (gauges ?s))
                       + int (length (timers ?s))), now)"
    by (rule submit_out) simp
  ultimately show ?thesis
    by simp
qed

text \<open>
  The amended claim on a cycle that starts with an idle counter, a gauge and an idle timer,
  and brings one sample for a new counter: \<open>numStats\<close> is 4.
\<close>

theorem numStats_counts_every_bucket_witness:
  "wf_store \<lparr>counters = [(''a'', 0)], timers = [(''idle'', [])], gauges = [(''g'', 5)]\<rparr>
   \<and> submit default_config 77
        (monitor_samples conv_amd64
           \<lparr>counters = [(''a'', 0)], timers = [(''idle'', [])], gauges = [(''g'', 5)]\<rparr>
           [\<lparr>Bucket = ''c'', Value = ''1'', Modifier = ''c'', Sampling = Fin 1\<rparr>])
     = Inr ([(''stats.a'', FloatV (Fin 0), 77),
             (''stats.counters.a'', IntV 0, 77),
             (''stats.c'', FloatV (counter_rate default_config 1), 77),
             (''stats.counters.c'', IntV 1, 77),
             (''stats.gauges.g'', IntV 5, 77),
             (''stats.timers.idle.mean'', FloatV (Fin 0), 77),
             (''stats.timers.idle.upper'', FloatV (Fin 0), 77),
             (''stats.timers.idle.upper_90'', FloatV (Fin 0), 77),
             (''stats.timers.idle.lower'', FloatV (Fin 0), 77),
             (''stats.timers.idle.count'', IntV 0, 77),
             (''stats.statsd.numStats'', IntV 4, 77)],
            \<lparr>counters = [(''a'', 0), (''c'', 0)], timers = [(''idle'', [])],
             gauges = [(''g'', 5)]\<rparr>)
   \<and> int (card (fst ` set [(''a'', 0 :: 64 word)]
         \<union> counter_buckets [\<lparr>Bucket = ''c'', Value = ''1'', Modifier = ''c'', Sampling = Fin 1\<rparr>]))
       + int (card (fst ` set [(''g'', 5 :: 64 word)]
         \<union> gauge_buckets [\<lparr>Bucket = ''c'', Value = ''1'', Modifier = ''c'', Sampling = Fin 1\<rparr>]))
       + int (card (fst ` set [(''idle'', [] :: fp list)]
         \<union> timer_buckets [\<lparr>Bucket = ''c'', Value = ''1'', Modifier = ''c'', Sampling = Fin 1\<rparr>]))
       = 4"
proof -
  let ?st = "\<lparr>counters = [(''a'', 0)], timers = [(''idle'', [])], gauges = [(''g'', 5)]\<rparr>"
  let ?ps = "[\<lparr>Bucket = ''c'', Value = ''1'', Modifier = ''c'', Sampling = Fin 1\<rparr>]"
  let ?out = "[(''stats.a'', FloatV (Fin 0), 77),
             (''stats.counters.a'', IntV 0, 77),
             (''stats.c'', FloatV (counter_rate default_config 1), 77),
             (''stats.counters.c'', IntV 1, 77),
             (''stats.gauges.g'', IntV 5, 77),
             (''stats.timers.idle.mean'', FloatV (Fin 0), 77),
             (''stats.timers.idle.upper'', FloatV (Fin 0), 77),
             (''stats.timers.idle.upper_90'', FloatV (Fin 0), 77),
             (''stats.timers.idle.lower'', FloatV (Fin 0), 77),
             (''stats.timers.idle.count'', IntV 0, 77),
             (''stats.statsd.numStats'', IntV 4, 77)]"
  have w: "wf_store ?st"
    by (simp add: wf_store_def)
  have h: "submit default_config 77 (monitor_samples conv_amd64 ?st ?ps)
           = Inr (?out, \<lparr>counters = [(''a'', 0), (''c'', 0)], timers = [(''idle'', [])],
                         gauges = [(''g'', 5)]\<rparr>)"
    by code_simp
  from numStats_counts_every_bucket [OF w h]
  have "int (card (fst ` set (counters ?st) \<union> counter_buckets ?ps))
        + int (card (fst ` set (gauges ?st) \<union> gauge_buckets ?ps))
        + int (card (fst ` set (timers ?st) \<union> timer_buckets ?ps)) = 4"
    by simp
  with w h show ?thesis
    by simp
qed





section \<open>The decoder\<close>

text \<open>
  C9, as the specification states it: the matches in a buffer are independent, and a
  malformed fragment produces no sample and suppresses no valid match. The separators are
  deleted before the pattern is matched, so a fragment joins the text that follows it. The
  fragment \<open>a:1|\<close>, which alone yields nothing, takes the \<open>c\<close> of the following \<open>c:2|c\<close>
  as its type: the buffer yields the sample \<open>a\<close> and the sample \<open>c\<close> is lost. In the same
  way the rate \<open>0.5\<close> runs into the bucket name \<open>3\<close> that follows it, and of two valid
  encodings one sample is left.
\<close>

theorem fragment_absorbs_next_encoding:
  "handleMessage ''a:1| c:2|c''
     = [\<lparr>Bucket = ''a'', Value = ''1'', Modifier = ''c'', Sampling = Fin 1\<rparr>]
   \<and> handleMessage ''a:1|'' = []
   \<and> handleMessage ''c:2|c''
     = [\<lparr>Bucket = ''c'', Value = ''2'', Modifier = ''c'', Sampling = Fin 1\<rparr>]
   \<and> map Bucket (handleMessage ''a:1|c|@0.5 3:2|c xyz'') = [''a'']
   \<and> map Bucket (handleMessage ''a:1|c|@0.5'') = [''a'']
   \<and> map Bucket (handleMessage ''3:2|c'') = [''3'']"
  by code_simp

text \<open>
  C9, amended. Decoding raises no error and yields one sample for each successive leftmost
  match of the pattern in the sanitized buffer. A match is independent of the text that
  follows it when that text does not continue it: if the sanitized head of a buffer is
  one complete encoding, and the sanitized rest does not begin with \<open>|@\<close> and a digit or
  point (for an encoding without a rate) or with a digit or point (for an encoding with a
  rate), then the buffer yields the sample of that encoding followed by exactly the samples
  of the rest, whatever the rest holds. So an unmatched fragment at the end suppresses no
  match before it.
\<close>

theorem encoding_decoded_whatever_follows:
  assumes "match_at (sanitize x) = Some (item, [])"
    and "\<not> continues (item ! 5) (sanitize y)"
  shows "handleMessage (x @ y) = to_packet item # handleMessage y"
proof -
  have "match_at (sanitize x @ sanitize y) = Some (item, sanitize y)"
    using assms by (rule match_at_app)
  moreover from assms(1) have "sanitize x \<noteq> []"
    by (auto simp: match_at_def match_name_def)
  ultimately have "FindAll (sanitize x @ sanitize y) = item # FindAll (sanitize y)"
    by (subst FindAll.simps) simp
  then show ?thesis
    by (simp add: handleMessage_def sanitize_def)
qed

text \<open>
  The amended claim on a buffer with two encodings and an unmatched fragment at its end: two
  samples.
\<close>

theorem encoding_decoded_whatever_follows_witness:
  "match_at (sanitize ''a:1|c '') = Some ([''a:1|c'', ''a'', ''1'', ''c'', [], []], [])
   \<and> \<not> continues ([''a:1|c'', ''a'', ''1'', ''c'', [], []] ! 5) (sanitize ''b:2|c xyz'')
   \<and> handleMessage ''a:1|c b:2|c xyz''
     = [\<lparr>Bucket = ''a'', Value = ''1'', Modifier = ''c'', Sampling = Fin 1\<rparr>,
        \<lparr>Bucket = ''b'', Value = ''2'', Modifier = ''c'', Sampling = Fin 1\<rparr>]"
proof -
  let ?item = "[''a:1|c'', ''a'', ''1'', ''c'', [], []]"
  have h1: "match_at (sanitize ''a:1|c '') = Some (?item, [])"
    by code_simp
  have h2: "\<not> continues (?item ! 5) (sanitize ''b:2|c xyz'')"
    by code_simp
  have p: "to_packet ?item
           = \<lparr>Bucket = ''a'', Value = ''1'', Modifier = ''c'', Sampling = Fin 1\<rparr>"
    by code_simp
  have r: "handleMessage ''b:2|c xyz''
           = [\<lparr>Bucket = ''b'', Value = ''2'', Modifier = ''c'', Sampling = Fin 1\<rparr>]"
    by code_simp
  from encoding_decoded_whatever_follows [OF h1 h2]
  have "handleMessage (''a:1|c '' @ ''b:2|c xyz'') = to_packet ?item # handleMessage ''b:2|c xyz''" .
  then have "handleMessage ''a:1|c b:2|c xyz''
             = [\<lparr>Bucket = ''a'', Value = ''1'', Modifier = ''c'', Sampling = Fin 1\<rparr>,
                \<lparr>Bucket = ''b'', Value = ''2'', Modifier = ''c'', Sampling = Fin 1\<rparr>]"
    unfolding p r by simp
  with h1 h2 show ?thesis
    by (simp only: simp_thms)
qed

end
